theory Spec2Isabelle
  imports Main "HOL-Library.Word"
begin

section \<open>Contexts and the intrusive wait-queue\<close>

text \<open>
  A fiber context is identified by its address. The only field of a context that the
  wait-queues touch is the intrusive \<open>next\<close> pointer, so the contexts are represented by
  one heap that maps the address of a context to the content of its \<open>next\<close> field
  (\<open>None\<close> is the null pointer). The heap is shared by all queues, as the field is.
\<close>

type_synonym context_ptr = nat

type_synonym next_heap = "context_ptr \<Rightarrow> context_ptr option"

text \<open>
  A \<open>Context **\<close> of \<open>context_slist\<close> points either to the \<open>head\_\<close> member of the list
  or to the \<open>next\<close> field of a context.
\<close>

datatype link_ptr = Head_field | Next_field context_ptr

record context_slist =
  head :: "context_ptr option"
  tail :: link_ptr

text \<open>
  The members \<^verbatim>\<open>head_\<close> and \<^verbatim>\<open>tail_\<close> are the fields \<open>head\<close> and \<open>tail\<close>; their
  initialisers are \<^verbatim>\<open>head_{ nullptr }\<close> and \<^verbatim>\<open>tail_{ & head_ }\<close>.
\<close>

definition slist_init :: context_slist where
  "slist_init = \<lparr>head = None, tail = Head_field\<rparr>"

text \<open>Reading and writing through a \<open>Context **\<close>.\<close>

definition deref :: "context_slist \<Rightarrow> next_heap \<Rightarrow> link_ptr \<Rightarrow> context_ptr option" where
  "deref q h p = (case p of Head_field \<Rightarrow> head q | Next_field c \<Rightarrow> h c)"

definition assign ::
  "context_slist \<Rightarrow> next_heap \<Rightarrow> link_ptr \<Rightarrow> context_ptr option \<Rightarrow> context_slist \<times> next_heap" where
  "assign q h p v =
     (case p of Head_field \<Rightarrow> (q\<lparr>head := v\<rparr>, h) | Next_field c \<Rightarrow> (q, h(c := v)))"

definition slist_empty :: "context_slist \<Rightarrow> bool" where
  "slist_empty q \<longleftrightarrow> head q = None"

text \<open>
  \<open>push\<close>: when \<open>*tail\<close> is null the context is stored there and \<open>tail\<close> stays; otherwise
  the context is stored in the \<open>next\<close> field of \<open>*tail\<close> and \<open>tail\<close> is advanced to the
  address of that field. \<open>*tail\<close> is read again for the second statement, as in the
  source; that read cannot give null (lemma \<open>slist_push_reread\<close>), the model leaves the
  queue as it is there.
\<close>

definition slist_push ::
  "context_ptr \<Rightarrow> context_slist \<Rightarrow> next_heap \<Rightarrow> context_slist \<times> next_heap" where
  "slist_push c q h =
     (case deref q h (tail q) of
        None \<Rightarrow> assign q h (tail q) (Some c)
      | Some t \<Rightarrow>
          (let h' = h(t := Some c) in
           case deref q h' (tail q) of
             Some t' \<Rightarrow> (q\<lparr>tail := Next_field t'\<rparr>, h')
           | None \<Rightarrow> (q, h')))"

text \<open>
  \<open>pop\<close>: returns \<open>head\_\<close> and, when it is not null, advances \<open>head\_\<close> to the \<open>next\<close> of
  the old head. Neither \<open>tail\<close> nor the \<open>next\<close> field of the popped context is written.
\<close>

definition slist_pop ::
  "context_slist \<Rightarrow> next_heap \<Rightarrow> context_ptr option \<times> context_slist" where
  "slist_pop q h =
     (let c = head q in
      case head q of
        None \<Rightarrow> (c, q)
      | Some first \<Rightarrow> (c, q\<lparr>head := h first\<rparr>))"

text \<open>
  \<open>unlink\<close>: \<^verbatim>\<open>BOOST_ASSERT( nullptr != head_)\<close>, then a walk from \<open>& head\<close> to the link
  that holds \<open>c\<close>. The walk dereferences \<open>*indirect\<close> without a test, so reaching the end
  of the chain is a null dereference; on a cyclic chain without \<open>c\<close> it does not end,
  which is the value \<open>None\<close> of the option type.
\<close>

datatype fault = Assertion_failed | Null_dereference

partial_function (option) unlink_walk ::
  "context_slist \<Rightarrow> next_heap \<Rightarrow> context_ptr \<Rightarrow> link_ptr \<Rightarrow> (fault + link_ptr) option" where
  "unlink_walk q h c indirect =
     (if deref q h indirect = Some c then Some (Inr indirect)
      else case deref q h indirect of
             None \<Rightarrow> Some (Inl Null_dereference)
           | Some p \<Rightarrow> unlink_walk q h c (Next_field p))"

declare unlink_walk.simps [code]

definition slist_unlink ::
  "context_ptr \<Rightarrow> context_slist \<Rightarrow> next_heap \<Rightarrow> (fault + context_slist \<times> next_heap) option" where
  "slist_unlink c q h =
     (if head q = None then Some (Inl Assertion_failed)
      else case unlink_walk q h c Head_field of
             None \<Rightarrow> None
           | Some (Inl f) \<Rightarrow> Some (Inl f)
           | Some (Inr indirect) \<Rightarrow>
               (let (q', h') = assign q h indirect (h c) in Some (Inr (q', h'(c := None)))))"

text \<open>
  A sequence of queue operations, run from the freshly constructed queue; the result is
  what the calls of \<open>pop\<close> returned, in order, and what \<open>empty\<close> says at the end.
\<close>

datatype queue_op = Push context_ptr | Pop

fun slist_run ::
  "queue_op list \<Rightarrow> context_slist \<Rightarrow> next_heap \<Rightarrow> context_ptr option list \<times> bool" where
  "slist_run [] q h = ([], slist_empty q)"
| "slist_run (Push c # ops) q h = (case slist_push c q h of (q', h') \<Rightarrow> slist_run ops q' h')"
| "slist_run (Pop # ops) q h =
     (case slist_pop q h of (r, q') \<Rightarrow> (case slist_run ops q' h of (rs, e) \<Rightarrow> (r # rs, e)))"

text \<open>
  The queue of the specification, in its words: \<open>push\<close> appends at the tail, \<open>pop\<close>
  returns the head or none, \<open>empty\<close> tells whether no pushed context remains.
\<close>

fun fifo_run :: "queue_op list \<Rightarrow> context_ptr list \<Rightarrow> context_ptr option list \<times> bool" where
  "fifo_run [] xs = ([], xs = [])"
| "fifo_run (Push c # ops) xs = fifo_run ops (xs @ [c])"
| "fifo_run (Pop # ops) xs =
     (case xs of
        [] \<Rightarrow> (case fifo_run ops [] of (rs, e) \<Rightarrow> (None # rs, e))
      | x # xs' \<Rightarrow> (case fifo_run ops xs' of (rs, e) \<Rightarrow> (Some x # rs, e)))"


section \<open>What the channel uses of the runtime\<close>

text \<open>
  Modelled from the spec: the status enumeration of \<^verbatim>\<open>channel_op_status.hpp\<close>, which is
  not among the sources (\<open>success\<close>, \<open>empty\<close>, \<open>full\<close>, \<open>closed\<close>, \<open>timeout\<close>).
\<close>

datatype channel_op_status = Success | Empty | Full | Closed | Timeout

text \<open>
  Modelled from the spec: the error raised by \<open>value_pop\<close>, a \<open>fiber_error\<close> that carries
  an error code and a message; \<^verbatim>\<open>exceptions.hpp\<close> is not among the sources.
\<close>

datatype errc = Operation_not_permitted

record fiber_error =
  code :: errc
  what :: string

text \<open>
  Modelled from the spec: the three operations of \<^verbatim>\<open>context\<close> that the channel calls;
  \<^verbatim>\<open>context.hpp\<close> is not among the sources.
  \<^item> \<open>set_ready(ctx)\<close> marks \<open>ctx\<close> ready and appends it to a ready queue. The state keeps
    the calls of \<open>set_ready\<close> in the order they were made (\<open>ready\<close>).
  \<^item> \<open>suspend(lk)\<close> releases the lock and switches away; the call returns when another
    fiber has made the caller ready.
  \<^item> \<open>wait_until(t, lk)\<close> is \<open>suspend\<close> with a deadline; it returns \<open>true\<close> when the wake
    was a \<open>set_ready\<close> and \<open>false\<close> when the deadline fired.
  An operation of the channel is therefore a sequence of segments: a segment runs from
  the call, or from a resumption, to the next suspension or to the return. A segment is
  a function on the state; what other fibers and threads do while the caller is suspended
  is the difference between the state a segment returns and the state the next segment
  is given, about which nothing is assumed. The spinlock \<^verbatim>\<open>splk_\<close> is held inside
  segments only (a suspension releases it), so it is not a component of the state.
\<close>

text \<open>
  A time point of the steady clock and a duration are counts of nanoseconds in a signed
  64-bit integer; they are 64-bit words, so the sum of a time point and a duration wraps.
\<close>

type_synonym time_point = "64 word"

type_synonym duration = "64 word"

datatype wait_point =
    Published  \<comment> \<open>a producer whose slot is published, waiting for its consumption\<close>
  | Enqueued   \<comment> \<open>a producer or consumer that pushed itself onto a wait-queue\<close>

datatype 'r outcome =
    Returned 'r
  | Thrown fiber_error
  | Suspend wait_point
  | Wait_until time_point wait_point

section \<open>The unbuffered channel\<close>

text \<open>
  \<^verbatim>\<open>struct slot { value_type value; context * ctx; }\<close>. A slot lives in the frame of the
  producer and is known to the channel by its address.
\<close>

record 'a slot =
  slot_value :: 'a
  slot_ctx :: context_ptr

type_synonym slot_ptr = nat

text \<open>
  The members of \<^verbatim>\<open>unbuffered_channel\<close> (\<^verbatim>\<open>slot_\<close>, \<^verbatim>\<open>closed_\<close>, \<^verbatim>\<open>waiting_producers_\<close>,
  \<^verbatim>\<open>waiting_consumers_\<close>) together with the memory they point into: the \<open>next\<close> fields
  of the contexts, the memory that holds the slots, and the log of \<open>set_ready\<close> calls.
\<close>

record 'a channel =
  slot :: "slot_ptr option"
  closed :: bool
  waiting_producers :: context_slist
  waiting_consumers :: context_slist
  next_field :: next_heap
  slots :: "slot_ptr \<Rightarrow> 'a slot"
  ready :: "context_ptr list"

text \<open>The default constructor.\<close>

definition channel_init :: "next_heap \<Rightarrow> (slot_ptr \<Rightarrow> 'a slot) \<Rightarrow> 'a channel" where
  "channel_init h m =
     \<lparr>slot = None, closed = False, waiting_producers = slist_init,
      waiting_consumers = slist_init, next_field = h, slots = m, ready = []\<rparr>"

text \<open>
  Modelled from the spec: \<open>context::set_ready\<close>, which is not among the sources. It
  schedules the context; the state records the call at the end of the ready log.
\<close>

definition set_ready :: "context_ptr \<Rightarrow> 'a channel \<Rightarrow> 'a channel" where
  "set_ready c st = st\<lparr>ready := ready st @ [c]\<rparr>"

subsection \<open>The atomic slot pointer\<close>

definition is_empty :: "'a channel \<Rightarrow> bool" where
  "is_empty st \<longleftrightarrow> slot st = None"

definition is_closed :: "'a channel \<Rightarrow> bool" where
  "is_closed st \<longleftrightarrow> closed st"

text \<open>
  \<open>slot_.compare_exchange_strong(expected, desired)\<close>: the result tells whether the
  exchange took place.
\<close>

definition compare_exchange_strong ::
  "slot_ptr option \<Rightarrow> slot_ptr option \<Rightarrow> 'a channel \<Rightarrow> bool \<times> 'a channel" where
  "compare_exchange_strong expected desired st =
     (if slot st = expected then (True, st\<lparr>slot := desired\<rparr>) else (False, st))"

text \<open>
  \<open>try_push_\<close> and \<open>try_pop_\<close> retry when the exchange fails. Inside one segment nothing
  happens between the load and the exchange, so the retry is never taken; this is what
  the termination proofs show.
\<close>

function try_push :: "slot_ptr \<Rightarrow> 'a channel \<Rightarrow> bool \<times> 'a channel" where
  "try_push own_slot st =
     (let s = slot st in
      if s = None then
        (let (exchanged, st') = compare_exchange_strong s (Some own_slot) st in
         if \<not> exchanged then try_push own_slot st' else (True, st'))
      else (False, st))"
  by pat_completeness auto
termination
  by (relation "measure (\<lambda>_. 0)") (auto simp: compare_exchange_strong_def)

function try_pop :: "'a channel \<Rightarrow> slot_ptr option \<times> 'a channel" where
  "try_pop st =
     (let s = slot st in
      if s \<noteq> None then
        (let (exchanged, st') = compare_exchange_strong s None st in
         if \<not> exchanged then try_pop st' else (s, st'))
      else (s, st))"
  by pat_completeness auto
termination
  by (relation "measure (\<lambda>_. 0)") (auto simp: compare_exchange_strong_def)

subsection \<open>The two wait-queues of the channel\<close>

definition producers_pop :: "'a channel \<Rightarrow> context_ptr option \<times> 'a channel" where
  "producers_pop st =
     (let (c, q) = slist_pop (waiting_producers st) (next_field st)
      in (c, st\<lparr>waiting_producers := q\<rparr>))"

definition consumers_pop :: "'a channel \<Rightarrow> context_ptr option \<times> 'a channel" where
  "consumers_pop st =
     (let (c, q) = slist_pop (waiting_consumers st) (next_field st)
      in (c, st\<lparr>waiting_consumers := q\<rparr>))"

definition producers_push :: "context_ptr \<Rightarrow> 'a channel \<Rightarrow> 'a channel" where
  "producers_push c st =
     (let (q, h) = slist_push c (waiting_producers st) (next_field st)
      in st\<lparr>waiting_producers := q, next_field := h\<rparr>)"

definition consumers_push :: "context_ptr \<Rightarrow> 'a channel \<Rightarrow> 'a channel" where
  "consumers_push c st =
     (let (q, h) = slist_push c (waiting_consumers st) (next_field st)
      in st\<lparr>waiting_consumers := q, next_field := h\<rparr>)"

definition producers_unlink :: "context_ptr \<Rightarrow> 'a channel \<Rightarrow> (fault + 'a channel) option" where
  "producers_unlink c st =
     (case slist_unlink c (waiting_producers st) (next_field st) of
        None \<Rightarrow> None
      | Some (Inl f) \<Rightarrow> Some (Inl f)
      | Some (Inr (q, h)) \<Rightarrow> Some (Inr (st\<lparr>waiting_producers := q, next_field := h\<rparr>)))"

definition consumers_unlink :: "context_ptr \<Rightarrow> 'a channel \<Rightarrow> (fault + 'a channel) option" where
  "consumers_unlink c st =
     (case slist_unlink c (waiting_consumers st) (next_field st) of
        None \<Rightarrow> None
      | Some (Inl f) \<Rightarrow> Some (Inl f)
      | Some (Inr (q, h)) \<Rightarrow> Some (Inr (st\<lparr>waiting_consumers := q, next_field := h\<rparr>)))"

subsection \<open>close and the destructor\<close>

text \<open>
  The two loops of \<open>close\<close> pop until the queue gives null. On a cyclic chain they do not
  end, so they are partial functions.
\<close>

partial_function (option) notify_producers :: "'a channel \<Rightarrow> 'a channel option" where
  "notify_producers st =
     (let (ctx, st1) = producers_pop st in
      case ctx of
        None \<Rightarrow> Some st1
      | Some c \<Rightarrow> notify_producers (set_ready c st1))"

declare notify_producers.simps [code]

partial_function (option) notify_consumers :: "'a channel \<Rightarrow> 'a channel option" where
  "notify_consumers st =
     (let (ctx, st1) = consumers_pop st in
      case ctx of
        None \<Rightarrow> Some st1
      | Some c \<Rightarrow> notify_consumers (set_ready c st1))"

declare notify_consumers.simps [code]

definition close :: "'a channel \<Rightarrow> 'a channel option" where
  "close st =
     (case notify_producers (st\<lparr>closed := True\<rparr>) of
        None \<Rightarrow> None
      | Some st1 \<Rightarrow> notify_consumers st1)"

text \<open>
  The destructor: \<open>close()\<close>, then a slot that is still published is taken and its owner
  made ready. The assertion \<^verbatim>\<open>nullptr != s->ctx\<close> holds by the type of \<open>slot_ctx\<close>.
\<close>

definition destructor :: "'a channel \<Rightarrow> 'a channel option" where
  "destructor st =
     (case close st of
        None \<Rightarrow> None
      | Some st1 \<Rightarrow>
          (let (s, st2) = try_pop st1 in
           case s of
             None \<Rightarrow> Some st2
           | Some p \<Rightarrow> Some (set_ready (slot_ctx (slots st2 p)) st2)))"

subsection \<open>push\<close>

text \<open>
  The slot \<open>s\<close> of a push is constructed in the frame of the caller before the loop;
  \<open>s\<close> below is its address. The body of \<^verbatim>\<open>for (;;)\<close> is the function \<open>\<dots>_loop\<close>: it
  runs to the return or to the suspension, and \<open>continue\<close> is the recursive call. The
  function \<open>\<dots>_resume\<close> is the segment after a suspension.
\<close>

function push_copy_loop ::
  "context_ptr \<Rightarrow> slot_ptr \<Rightarrow> 'a channel \<Rightarrow> channel_op_status outcome \<times> 'a channel" where
  "push_copy_loop active_ctx s st =
     (if is_closed st then (Returned Closed, st)
      else
        (let (pushed, st1) = try_push s st in
         if pushed then
           (let (consumer_ctx, st2) = consumers_pop st1;
                st3 = (case consumer_ctx of None \<Rightarrow> st2 | Some c \<Rightarrow> set_ready c st2)
            in (Suspend Published, st3))
         else if is_closed st1 then (Returned Closed, st1)
         else if is_empty st1 then push_copy_loop active_ctx s st1
         else (Suspend Enqueued, producers_push active_ctx st1)))"
  by pat_completeness auto
termination
  by (relation "measure (\<lambda>_. 0)")
    (auto simp: compare_exchange_strong_def is_empty_def Let_def split: if_splits)

definition push_copy ::
  "context_ptr \<Rightarrow> slot_ptr \<Rightarrow> 'a \<Rightarrow> 'a channel \<Rightarrow> channel_op_status outcome \<times> 'a channel" where
  "push_copy active_ctx s v st =
     push_copy_loop active_ctx s
       (st\<lparr>slots := (slots st)(s := \<lparr>slot_value = v, slot_ctx = active_ctx\<rparr>)\<rparr>)"

definition push_copy_resume ::
  "wait_point \<Rightarrow> context_ptr \<Rightarrow> slot_ptr \<Rightarrow> 'a channel \<Rightarrow> channel_op_status outcome \<times> 'a channel" where
  "push_copy_resume w active_ctx s st =
     (case w of
        Published \<Rightarrow> (Returned Success, st)
      | Enqueued \<Rightarrow> push_copy_loop active_ctx s st)"


text \<open>The overload \<^verbatim>\<open>push( value_type && value)\<close>, whose slot is built by moving the value.\<close>

function push_move_loop ::
  "context_ptr \<Rightarrow> slot_ptr \<Rightarrow> 'a channel \<Rightarrow> channel_op_status outcome \<times> 'a channel" where
  "push_move_loop active_ctx s st =
     (if is_closed st then (Returned Closed, st)
      else
        (let (pushed, st1) = try_push s st in
         if pushed then
           (let (consumer_ctx, st2) = consumers_pop st1;
                st3 = (case consumer_ctx of None \<Rightarrow> st2 | Some c \<Rightarrow> set_ready c st2)
            in (Suspend Published, st3))
         else if is_closed st1 then (Returned Closed, st1)
         else if is_empty st1 then push_move_loop active_ctx s st1
         else (Suspend Enqueued, producers_push active_ctx st1)))"
  by pat_completeness auto
termination
  by (relation "measure (\<lambda>_. 0)")
    (auto simp: compare_exchange_strong_def is_empty_def Let_def split: if_splits)

definition push_move ::
  "context_ptr \<Rightarrow> slot_ptr \<Rightarrow> 'a \<Rightarrow> 'a channel \<Rightarrow> channel_op_status outcome \<times> 'a channel" where
  "push_move active_ctx s v st =
     push_move_loop active_ctx s
       (st\<lparr>slots := (slots st)(s := \<lparr>slot_value = v, slot_ctx = active_ctx\<rparr>)\<rparr>)"

definition push_move_resume ::
  "wait_point \<Rightarrow> context_ptr \<Rightarrow> slot_ptr \<Rightarrow> 'a channel \<Rightarrow> channel_op_status outcome \<times> 'a channel" where
  "push_move_resume w active_ctx s st =
     (case w of
        Published \<Rightarrow> (Returned Success, st)
      | Enqueued \<Rightarrow> push_move_loop active_ctx s st)"

subsection \<open>push with a deadline\<close>

text \<open>
  \<open>wait_until\<close> ends the segment; \<open>woken\<close> is what it returns on resumption. Deadlines
  are time points of the steady clock, and \<^verbatim>\<open>detail::convert\<close>, which is not among the
  sources, is taken to be the identity on them. When the deadline fired on the
  published slot, the result of the exchange that clears the slot is not looked at. When
  it fired on the queue, the caller unlinks itself, which can fail as \<open>unlink\<close> can.
  \<open>push_wait_for\<close> takes the reading of the clock as the argument \<open>now\<close>; its deadline
  \<open>now + timeout_duration\<close> is a sum of 64-bit words.
\<close>

function push_wait_until_copy_loop ::
  "context_ptr \<Rightarrow> slot_ptr \<Rightarrow> time_point \<Rightarrow> 'a channel \<Rightarrow> channel_op_status outcome \<times> 'a channel" where
  "push_wait_until_copy_loop active_ctx s timeout_time st =
     (if is_closed st then (Returned Closed, st)
      else
        (let (pushed, st1) = try_push s st in
         if pushed then
           (let (consumer_ctx, st2) = consumers_pop st1;
                st3 = (case consumer_ctx of None \<Rightarrow> st2 | Some c \<Rightarrow> set_ready c st2)
            in (Wait_until timeout_time Published, st3))
         else if is_closed st1 then (Returned Closed, st1)
         else if is_empty st1 then push_wait_until_copy_loop active_ctx s timeout_time st1
         else (Wait_until timeout_time Enqueued, producers_push active_ctx st1)))"
  by pat_completeness auto
termination
  by (relation "measure (\<lambda>_. 0)")
    (auto simp: compare_exchange_strong_def is_empty_def Let_def split: if_splits)

definition push_wait_until_copy ::
  "context_ptr \<Rightarrow> slot_ptr \<Rightarrow> 'a \<Rightarrow> time_point \<Rightarrow> 'a channel
    \<Rightarrow> channel_op_status outcome \<times> 'a channel" where
  "push_wait_until_copy active_ctx s v timeout_time st =
     push_wait_until_copy_loop active_ctx s timeout_time
       (st\<lparr>slots := (slots st)(s := \<lparr>slot_value = v, slot_ctx = active_ctx\<rparr>)\<rparr>)"

definition push_wait_until_copy_resume ::
  "wait_point \<Rightarrow> bool \<Rightarrow> context_ptr \<Rightarrow> slot_ptr \<Rightarrow> time_point \<Rightarrow> 'a channel
    \<Rightarrow> (fault + channel_op_status outcome \<times> 'a channel) option" where
  "push_wait_until_copy_resume w woken active_ctx s timeout_time st =
     (case w of
        Published \<Rightarrow>
          (if \<not> woken then
             (let (exchanged, st1) = compare_exchange_strong (Some s) None st
              in Some (Inr (Returned Timeout, st1)))
           else Some (Inr (Returned Success, st)))
      | Enqueued \<Rightarrow>
          (if \<not> woken then
             (case producers_unlink active_ctx st of
                None \<Rightarrow> None
              | Some (Inl f) \<Rightarrow> Some (Inl f)
              | Some (Inr st1) \<Rightarrow> Some (Inr (Returned Timeout, st1)))
           else Some (Inr (push_wait_until_copy_loop active_ctx s timeout_time st))))"

definition push_wait_for_copy ::
  "context_ptr \<Rightarrow> slot_ptr \<Rightarrow> 'a \<Rightarrow> duration \<Rightarrow> time_point \<Rightarrow> 'a channel
    \<Rightarrow> channel_op_status outcome \<times> 'a channel" where
  "push_wait_for_copy active_ctx s v timeout_duration now st =
     push_wait_until_copy active_ctx s v (now + timeout_duration) st"

function push_wait_until_move_loop ::
  "context_ptr \<Rightarrow> slot_ptr \<Rightarrow> time_point \<Rightarrow> 'a channel \<Rightarrow> channel_op_status outcome \<times> 'a channel" where
  "push_wait_until_move_loop active_ctx s timeout_time st =
     (if is_closed st then (Returned Closed, st)
      else
        (let (pushed, st1) = try_push s st in
         if pushed then
           (let (consumer_ctx, st2) = consumers_pop st1;
                st3 = (case consumer_ctx of None \<Rightarrow> st2 | Some c \<Rightarrow> set_ready c st2)
            in (Wait_until timeout_time Published, st3))
         else if is_closed st1 then (Returned Closed, st1)
         else if is_empty st1 then push_wait_until_move_loop active_ctx s timeout_time st1
         else (Wait_until timeout_time Enqueued, producers_push active_ctx st1)))"
  by pat_completeness auto
termination
  by (relation "measure (\<lambda>_. 0)")
    (auto simp: compare_exchange_strong_def is_empty_def Let_def split: if_splits)

definition push_wait_until_move ::
  "context_ptr \<Rightarrow> slot_ptr \<Rightarrow> 'a \<Rightarrow> time_point \<Rightarrow> 'a channel
    \<Rightarrow> channel_op_status outcome \<times> 'a channel" where
  "push_wait_until_move active_ctx s v timeout_time st =
     push_wait_until_move_loop active_ctx s timeout_time
       (st\<lparr>slots := (slots st)(s := \<lparr>slot_value = v, slot_ctx = active_ctx\<rparr>)\<rparr>)"

definition push_wait_until_move_resume ::
  "wait_point \<Rightarrow> bool \<Rightarrow> context_ptr \<Rightarrow> slot_ptr \<Rightarrow> time_point \<Rightarrow> 'a channel
    \<Rightarrow> (fault + channel_op_status outcome \<times> 'a channel) option" where
  "push_wait_until_move_resume w woken active_ctx s timeout_time st =
     (case w of
        Published \<Rightarrow>
          (if \<not> woken then
             (let (exchanged, st1) = compare_exchange_strong (Some s) None st
              in Some (Inr (Returned Timeout, st1)))
           else Some (Inr (Returned Success, st)))
      | Enqueued \<Rightarrow>
          (if \<not> woken then
             (case producers_unlink active_ctx st of
                None \<Rightarrow> None
              | Some (Inl f) \<Rightarrow> Some (Inl f)
              | Some (Inr st1) \<Rightarrow> Some (Inr (Returned Timeout, st1)))
           else Some (Inr (push_wait_until_move_loop active_ctx s timeout_time st))))"

definition push_wait_for_move ::
  "context_ptr \<Rightarrow> slot_ptr \<Rightarrow> 'a \<Rightarrow> duration \<Rightarrow> time_point \<Rightarrow> 'a channel
    \<Rightarrow> channel_op_status outcome \<times> 'a channel" where
  "push_wait_for_move active_ctx s v timeout_duration now st =
     push_wait_until_move active_ctx s v (now + timeout_duration) st"

subsection \<open>pop\<close>

text \<open>
  \<open>value\<close> is the out-parameter of the caller: the functions take its content and return
  the content it has when the segment ends. Moving out of \<open>s->value\<close> is a read of the
  slot memory. The consumer first makes one waiting producer ready, then takes the value
  and makes the owner of the slot ready.
\<close>

function pop_loop ::
  "context_ptr \<Rightarrow> 'a \<Rightarrow> 'a channel \<Rightarrow> (channel_op_status outcome \<times> 'a) \<times> 'a channel" where
  "pop_loop active_ctx val st =
     (let (s, st1) = try_pop st in
      case s of
        Some p \<Rightarrow>
          (let (producer_ctx, st2) = producers_pop st1;
               st3 = (case producer_ctx of None \<Rightarrow> st2 | Some c \<Rightarrow> set_ready c st2);
               val' = slot_value (slots st3 p);
               st4 = set_ready (slot_ctx (slots st3 p)) st3
           in ((Returned Success, val'), st4))
      | None \<Rightarrow>
          (if is_closed st1 then ((Returned Closed, val), st1)
           else if \<not> is_empty st1 then pop_loop active_ctx val st1
           else ((Suspend Enqueued, val), consumers_push active_ctx st1)))"
  by pat_completeness auto
termination
  by (relation "measure (\<lambda>_. 0)")
    (auto simp: compare_exchange_strong_def is_empty_def Let_def split: if_splits)

definition pop :: "context_ptr \<Rightarrow> 'a \<Rightarrow> 'a channel \<Rightarrow> (channel_op_status outcome \<times> 'a) \<times> 'a channel" where
  "pop active_ctx val st = pop_loop active_ctx val st"

definition pop_resume ::
  "context_ptr \<Rightarrow> 'a \<Rightarrow> 'a channel \<Rightarrow> (channel_op_status outcome \<times> 'a) \<times> 'a channel" where
  "pop_resume active_ctx val st = pop_loop active_ctx val st"

text \<open>
  \<open>value_pop\<close> returns the value instead of a status and throws where \<open>pop\<close> returns
  \<open>closed\<close>.
\<close>

function value_pop_loop :: "context_ptr \<Rightarrow> 'a channel \<Rightarrow> 'a outcome \<times> 'a channel" where
  "value_pop_loop active_ctx st =
     (let (s, st1) = try_pop st in
      case s of
        Some p \<Rightarrow>
          (let (producer_ctx, st2) = producers_pop st1;
               st3 = (case producer_ctx of None \<Rightarrow> st2 | Some c \<Rightarrow> set_ready c st2);
               val = slot_value (slots st3 p);
               st4 = set_ready (slot_ctx (slots st3 p)) st3
           in (Returned val, st4))
      | None \<Rightarrow>
          (if is_closed st1 then
             (Thrown \<lparr>code = Operation_not_permitted, what = ''boost fiber: channel is closed''\<rparr>,
              st1)
           else if \<not> is_empty st1 then value_pop_loop active_ctx st1
           else (Suspend Enqueued, consumers_push active_ctx st1)))"
  by pat_completeness auto
termination
  by (relation "measure (\<lambda>_. 0)")
    (auto simp: compare_exchange_strong_def is_empty_def Let_def split: if_splits)

definition value_pop :: "context_ptr \<Rightarrow> 'a channel \<Rightarrow> 'a outcome \<times> 'a channel" where
  "value_pop active_ctx st = value_pop_loop active_ctx st"

definition value_pop_resume :: "context_ptr \<Rightarrow> 'a channel \<Rightarrow> 'a outcome \<times> 'a channel" where
  "value_pop_resume active_ctx st = value_pop_loop active_ctx st"

subsection \<open>pop with a deadline\<close>

function pop_wait_until_loop ::
  "context_ptr \<Rightarrow> 'a \<Rightarrow> time_point \<Rightarrow> 'a channel
    \<Rightarrow> (channel_op_status outcome \<times> 'a) \<times> 'a channel" where
  "pop_wait_until_loop active_ctx val timeout_time st =
     (let (s, st1) = try_pop st in
      case s of
        Some p \<Rightarrow>
          (let (producer_ctx, st2) = producers_pop st1;
               st3 = (case producer_ctx of None \<Rightarrow> st2 | Some c \<Rightarrow> set_ready c st2);
               val' = slot_value (slots st3 p);
               st4 = set_ready (slot_ctx (slots st3 p)) st3
           in ((Returned Success, val'), st4))
      | None \<Rightarrow>
          (if is_closed st1 then ((Returned Closed, val), st1)
           else if \<not> is_empty st1 then pop_wait_until_loop active_ctx val timeout_time st1
           else ((Wait_until timeout_time Enqueued, val), consumers_push active_ctx st1)))"
  by pat_completeness auto
termination
  by (relation "measure (\<lambda>_. 0)")
    (auto simp: compare_exchange_strong_def is_empty_def Let_def split: if_splits)

definition pop_wait_until ::
  "context_ptr \<Rightarrow> 'a \<Rightarrow> time_point \<Rightarrow> 'a channel
    \<Rightarrow> (channel_op_status outcome \<times> 'a) \<times> 'a channel" where
  "pop_wait_until active_ctx val timeout_time st =
     pop_wait_until_loop active_ctx val timeout_time st"

definition pop_wait_until_resume ::
  "bool \<Rightarrow> context_ptr \<Rightarrow> 'a \<Rightarrow> time_point \<Rightarrow> 'a channel
    \<Rightarrow> (fault + (channel_op_status outcome \<times> 'a) \<times> 'a channel) option" where
  "pop_wait_until_resume woken active_ctx val timeout_time st =
     (if \<not> woken then
        (case consumers_unlink active_ctx st of
           None \<Rightarrow> None
         | Some (Inl f) \<Rightarrow> Some (Inl f)
         | Some (Inr st1) \<Rightarrow> Some (Inr ((Returned Timeout, val), st1)))
      else Some (Inr (pop_wait_until_loop active_ctx val timeout_time st)))"

definition pop_wait_for ::
  "context_ptr \<Rightarrow> 'a \<Rightarrow> duration \<Rightarrow> time_point \<Rightarrow> 'a channel
    \<Rightarrow> (channel_op_status outcome \<times> 'a) \<times> 'a channel" where
  "pop_wait_for active_ctx val timeout_duration now st =
     pop_wait_until active_ctx val (now + timeout_duration) st"

section \<open>The condition variable\<close>

text \<open>
  \<open>condition_variable_any\<close> has a wait-queue and the spinlock \<^verbatim>\<open>wait_queue_splk_\<close>. The
  claims about it concern the order of locking and scheduling, so its state records the
  events in the order they happen: taking and releasing the spinlock, and the calls of
  \<open>set_ready\<close>. A \<^verbatim>\<open>spinlock_lock\<close> that is still held at the end of the function is
  released by its destructor, after the last statement.
\<close>

datatype event = Lock | Unlock | Set_ready context_ptr

record condition_variable_any =
  wait_queue :: context_slist
  cv_next_field :: next_heap
  events :: "event list"

definition emit :: "event \<Rightarrow> condition_variable_any \<Rightarrow> condition_variable_any" where
  "emit e cv = cv\<lparr>events := events cv @ [e]\<rparr>"

definition wait_queue_pop ::
  "condition_variable_any \<Rightarrow> context_ptr option \<times> condition_variable_any" where
  "wait_queue_pop cv =
     (let (c, q) = slist_pop (wait_queue cv) (cv_next_field cv) in (c, cv\<lparr>wait_queue := q\<rparr>))"

definition notify_one :: "condition_variable_any \<Rightarrow> condition_variable_any" where
  "notify_one cv =
     (let cv1 = emit Lock cv;
          (ctx, cv2) = wait_queue_pop cv1;
          cv3 = emit Unlock cv2
      in case ctx of
           None \<Rightarrow> cv3
         | Some c \<Rightarrow> emit (Set_ready c) cv3)"

partial_function (option) notify_all_loop ::
  "condition_variable_any \<Rightarrow> condition_variable_any option" where
  "notify_all_loop cv =
     (let (ctx, cv1) = wait_queue_pop cv in
      case ctx of
        None \<Rightarrow> Some cv1
      | Some c \<Rightarrow> notify_all_loop (emit (Set_ready c) cv1))"

declare notify_all_loop.simps [code]

definition notify_all :: "condition_variable_any \<Rightarrow> condition_variable_any option" where
  "notify_all cv =
     (case notify_all_loop (emit Lock cv) of
        None \<Rightarrow> None
      | Some cv1 \<Rightarrow> Some (emit Unlock cv1))"

section \<open>Queues that hold a list of contexts\<close>

text \<open>
  \<open>chain h p xs\<close>: following the \<open>next\<close> fields of the heap \<open>h\<close> from the pointer \<open>p\<close>
  visits exactly the contexts \<open>xs\<close>, in this order, and then reaches null. A queue
  holds the contexts \<open>xs\<close> when the chain from its \<open>head\<close> is \<open>xs\<close>.
\<close>

fun chain :: "next_heap \<Rightarrow> context_ptr option \<Rightarrow> context_ptr list \<Rightarrow> bool" where
  "chain h p [] \<longleftrightarrow> p = None"
| "chain h p (x # xs) \<longleftrightarrow> p = Some x \<and> chain h (h x) xs"

section \<open>The operations as steps on the channel\<close>

text \<open>
  \<open>channel_step st st'\<close>: one segment of one public operation of the channel, called
  with any arguments by any context, takes the state \<open>st\<close> to \<open>st'\<close>. The steps are the
  calls and the resumptions of \<open>push\<close>, \<open>push_wait_until\<close>, \<open>push_wait_for\<close> (both
  overloads each), \<open>pop\<close>, \<open>value_pop\<close>, \<open>pop_wait_until\<close>, \<open>pop_wait_for\<close>, and \<open>close\<close>
  and the destructor.
\<close>

inductive channel_step :: "'a channel \<Rightarrow> 'a channel \<Rightarrow> bool" where
  step_push_copy: "push_copy a s v st = (r, st') \<Longrightarrow> channel_step st st'"
| step_push_copy_resume: "push_copy_resume w a s st = (r, st') \<Longrightarrow> channel_step st st'"
| step_push_move: "push_move a s v st = (r, st') \<Longrightarrow> channel_step st st'"
| step_push_move_resume: "push_move_resume w a s st = (r, st') \<Longrightarrow> channel_step st st'"
| step_push_wait_until_copy:
    "push_wait_until_copy a s v t st = (r, st') \<Longrightarrow> channel_step st st'"
| step_push_wait_until_copy_resume:
    "push_wait_until_copy_resume w woken a s t st = Some (Inr (r, st')) \<Longrightarrow> channel_step st st'"
| step_push_wait_until_move:
    "push_wait_until_move a s v t st = (r, st') \<Longrightarrow> channel_step st st'"
| step_push_wait_until_move_resume:
    "push_wait_until_move_resume w woken a s t st = Some (Inr (r, st')) \<Longrightarrow> channel_step st st'"
| step_push_wait_for_copy:
    "push_wait_for_copy a s v d now st = (r, st') \<Longrightarrow> channel_step st st'"
| step_push_wait_for_move:
    "push_wait_for_move a s v d now st = (r, st') \<Longrightarrow> channel_step st st'"
| step_pop: "pop a val st = (rv, st') \<Longrightarrow> channel_step st st'"
| step_pop_resume: "pop_resume a val st = (rv, st') \<Longrightarrow> channel_step st st'"
| step_value_pop: "value_pop a st = (ro, st') \<Longrightarrow> channel_step st st'"
| step_value_pop_resume: "value_pop_resume a st = (ro, st') \<Longrightarrow> channel_step st st'"
| step_pop_wait_until: "pop_wait_until a val t st = (rv, st') \<Longrightarrow> channel_step st st'"
| step_pop_wait_until_resume:
    "pop_wait_until_resume woken a val t st = Some (Inr (rv, st')) \<Longrightarrow> channel_step st st'"
| step_pop_wait_for: "pop_wait_for a val d now st = (rv, st') \<Longrightarrow> channel_step st st'"
| step_close: "close st = Some st' \<Longrightarrow> channel_step st st'"
| step_destructor: "destructor st = Some st' \<Longrightarrow> channel_step st st'"

section \<open>Concrete states\<close>

text \<open>
  A fresh channel of natural numbers in a world where every \<open>next\<close> field is null, and
  the same channel after \<open>close()\<close>.
\<close>

definition fresh :: "nat channel" where
  "fresh = channel_init (\<lambda>_. None) (\<lambda>_. \<lparr>slot_value = 0, slot_ctx = 0\<rparr>)"

definition fresh_closed :: "nat channel" where
  "fresh_closed = fresh\<lparr>closed := True\<rparr>"

text \<open>A condition variable on which the contexts 1 and 2 wait, in this order.\<close>

definition cv_two_waiters :: condition_variable_any where
  "cv_two_waiters =
     \<lparr>wait_queue = \<lparr>head = Some 1, tail = Next_field 1\<rparr>,
      cv_next_field = (\<lambda>_. None)(1 := Some 2), events = []\<rparr>"

text \<open>
  A channel with both queues in use: the consumers 3 and 4 wait on the fresh channel,
  producer 1 publishes its slot and wakes consumer 3, producer 2 finds the slot occupied
  and enqueues itself.
\<close>

definition two_sided :: "nat channel" where
  "two_sided =
     snd (push_wait_until_copy 2 11 8 50
       (snd (push_wait_until_copy 1 10 7 50
         (snd (pop_wait_until 4 0 50
           (snd (pop_wait_until 3 0 50 fresh)))))))"




section \<open>The wait-queue\<close>

lemma slist_push_reread:
  "deref q h (tail q) = Some t \<Longrightarrow> deref q (h(t := Some c)) (tail q) \<noteq> None"
  by (cases "tail q") (simp_all add: deref_def)

subsection \<open>The wait-queue is not a FIFO once it has been drained\<close>

text \<open>
  C2. The claim: for every sequence of \<open>push\<close> and \<open>pop\<close> on contexts whose \<open>next\<close> is
  null at the start, \<open>pop\<close> returns the earliest pushed context that is still queued,
  and \<open>empty\<close> is true exactly when no pushed context remains, also after the queue has
  been emptied by pops. The code at the sequence push 1, push 2, pop, pop, push 3, pop:
  the two pops leave \<open>tail\<close> at the \<open>next\<close> field of context 1, which still holds
  context 2, so the third push links context 3 behind the popped context 2 and \<open>head\<close>
  stays null. The last pop returns null and \<open>empty\<close> is true although context 3 was
  pushed and never popped; the queue of the specification returns context 3.
\<close>

theorem slist_drained_queue_loses_push:
  "slist_run [Push 1, Push 2, Pop, Pop, Push 3, Pop] slist_init (\<lambda>_. None)
     = ([Some 1, Some 2, None], True)
   \<and> slist_run [Push 1, Push 2, Pop, Pop, Push 3] slist_init (\<lambda>_. None) = ([Some 1, Some 2], True)
   \<and> fifo_run [Push 1, Push 2, Pop, Pop, Push 3, Pop] [] = ([Some 1, Some 2, Some 3], True)
   \<and> fifo_run [Push 1, Push 2, Pop, Pop, Push 3] [] = ([Some 1, Some 2], False)"
  by (simp add: slist_init_def slist_push_def slist_pop_def deref_def assign_def slist_empty_def)

text \<open>
  The same slip on reuse: \<open>pop\<close> leaves the \<open>next\<close> field of the popped context as it
  was. Context 1 is popped from a first queue while context 2 is behind it and is then
  pushed onto a second, fresh queue: the second queue now holds context 2 as well.
\<close>

lemma slist_reused_context_drags_successor:
  "(case slist_push 1 slist_init (\<lambda>_. None) of (q1, h1) \<Rightarrow>
    case slist_push 2 q1 h1 of (q2, h2) \<Rightarrow>
    case slist_pop q2 h2 of (r, q3) \<Rightarrow>
      slist_run [Push 1, Pop, Pop] slist_init h2) = ([Some 1, Some 2], True)"
  by (simp add: slist_init_def slist_push_def slist_pop_def deref_def assign_def slist_empty_def)

section \<open>notify_all schedules under the spinlock\<close>

text \<open>
  C3. The claim: \<open>notify_all\<close> drains the wait-queue into a local list while it holds the
  spinlock and calls \<open>set_ready\<close> only after releasing it. The code on a condition
  variable with the waiters 1 and 2: both calls of \<open>set_ready\<close> happen between taking
  and releasing the spinlock. \<open>notify_one\<close> on the same state releases the spinlock
  before it calls \<open>set_ready\<close>.
\<close>

theorem notify_all_sets_ready_under_lock:
  "map_option events (notify_all cv_two_waiters) = Some [Lock, Set_ready 1, Set_ready 2, Unlock]
   \<and> events (notify_one cv_two_waiters) = [Lock, Unlock, Set_ready 1]"
proof -
  have "map_option events (notify_all cv_two_waiters)
          = Some [Lock, Set_ready 1, Set_ready 2, Unlock]"
    unfolding notify_all_def cv_two_waiters_def
    by (subst notify_all_loop.simps, simp add: wait_queue_pop_def slist_pop_def emit_def)+
  moreover have "events (notify_one cv_two_waiters) = [Lock, Unlock, Set_ready 1]"
    by (simp add: notify_one_def cv_two_waiters_def wait_queue_pop_def slist_pop_def emit_def)
  ultimately show ?thesis by simp
qed

section \<open>A deadline that fires on a published slot\<close>

lemma try_push_eq:
  "try_push own_slot st =
     (if slot st = None then (True, st\<lparr>slot := Some own_slot\<rparr>) else (False, st))"
  by (subst try_push.simps) (simp add: compare_exchange_strong_def Let_def)

lemma try_pop_eq:
  "try_pop st = (if slot st \<noteq> None then (slot st, st\<lparr>slot := None\<rparr>) else (None, st))"
  by (subst try_pop.simps) (simp add: compare_exchange_strong_def Let_def)

text \<open>
  C1. The claim: a \<open>push_wait_until\<close> that published its slot and is woken by the
  deadline returns \<open>timeout\<close> only if its exchange of the slot pointer back to null
  succeeds, and \<open>success\<close> if the exchange fails because a consumer took the slot. The
  code: producer 1 publishes its slot (address 10, value 99) on the fresh channel and
  waits; a consumer takes the slot with \<open>try_pop_\<close>, the first step of a \<open>pop\<close> that
  returns \<open>success\<close> with the value 99; the deadline fires before the consumer has made
  the producer ready. The producer's exchange fails, and both overloads return \<open>timeout\<close>
  for a value that was consumed.
\<close>

theorem push_wait_until_timeout_ignores_exchange:
  "(let st1 = snd (push_wait_until_copy 1 10 99 5 fresh);
        st2 = snd (try_pop st1)
    in fst (push_wait_until_copy 1 10 99 5 fresh) = Wait_until 5 Published
       \<and> slot st1 = Some 10
       \<and> fst (try_pop st1) = Some 10
       \<and> fst (pop 2 0 st1) = (Returned Success, 99)
       \<and> \<not> fst (compare_exchange_strong (Some 10) None st2)
       \<and> map_option (map_sum id fst) (push_wait_until_copy_resume Published False 1 10 5 st2)
           = Some (Inr (Returned Timeout)))
   \<and> (let st1 = snd (push_wait_until_move 1 10 99 5 fresh);
        st2 = snd (try_pop st1)
    in fst (push_wait_until_move 1 10 99 5 fresh) = Wait_until 5 Published
       \<and> slot st1 = Some 10
       \<and> fst (try_pop st1) = Some 10
       \<and> fst (pop 2 0 st1) = (Returned Success, 99)
       \<and> \<not> fst (compare_exchange_strong (Some 10) None st2)
       \<and> map_option (map_sum id fst) (push_wait_until_move_resume Published False 1 10 5 st2)
           = Some (Inr (Returned Timeout)))"
  by code_simp

text \<open>Whatever the state at the wake, the deadline on a published slot gives \<open>timeout\<close>.\<close>

lemma push_wait_until_published_deadline:
  "map_option (map_sum id fst) (push_wait_until_copy_resume Published False active_ctx s t st)
     = Some (Inr (Returned Timeout))"
  "map_option (map_sum id fst) (push_wait_until_move_resume Published False active_ctx s t st)
     = Some (Inr (Returned Timeout))"
  by (simp_all add: push_wait_until_copy_resume_def push_wait_until_move_resume_def
        compare_exchange_strong_def)

section \<open>The segments in closed form\<close>

text \<open>
  Inside a segment the retry branches of the loops are not taken, so each loop body is
  equal to a term without recursion. The proofs below use these equations instead of the
  recursive ones.
\<close>

declare try_push.simps [simp del] try_pop.simps [simp del]
  push_copy_loop.simps [simp del] push_move_loop.simps [simp del]
  push_wait_until_copy_loop.simps [simp del] push_wait_until_move_loop.simps [simp del]
  pop_loop.simps [simp del] value_pop_loop.simps [simp del] pop_wait_until_loop.simps [simp del]

lemma push_copy_loop_eq:
  "push_copy_loop active_ctx s st =
     (if closed st then (Returned Closed, st)
      else if slot st = None then
        (let (consumer_ctx, st2) = consumers_pop (st\<lparr>slot := Some s\<rparr>)
         in (Suspend Published, case consumer_ctx of None \<Rightarrow> st2 | Some c \<Rightarrow> set_ready c st2))
      else (Suspend Enqueued, producers_push active_ctx st))"
  by (subst push_copy_loop.simps)
    (simp add: try_push_eq is_closed_def is_empty_def Let_def split: prod.splits)

lemma push_move_loop_eq:
  "push_move_loop active_ctx s st =
     (if closed st then (Returned Closed, st)
      else if slot st = None then
        (let (consumer_ctx, st2) = consumers_pop (st\<lparr>slot := Some s\<rparr>)
         in (Suspend Published, case consumer_ctx of None \<Rightarrow> st2 | Some c \<Rightarrow> set_ready c st2))
      else (Suspend Enqueued, producers_push active_ctx st))"
  by (subst push_move_loop.simps)
    (simp add: try_push_eq is_closed_def is_empty_def Let_def split: prod.splits)

lemma push_wait_until_copy_loop_eq:
  "push_wait_until_copy_loop active_ctx s t st =
     (if closed st then (Returned Closed, st)
      else if slot st = None then
        (let (consumer_ctx, st2) = consumers_pop (st\<lparr>slot := Some s\<rparr>)
         in (Wait_until t Published,
             case consumer_ctx of None \<Rightarrow> st2 | Some c \<Rightarrow> set_ready c st2))
      else (Wait_until t Enqueued, producers_push active_ctx st))"
  by (subst push_wait_until_copy_loop.simps)
    (simp add: try_push_eq is_closed_def is_empty_def Let_def split: prod.splits)

lemma push_wait_until_move_loop_eq:
  "push_wait_until_move_loop active_ctx s t st =
     (if closed st then (Returned Closed, st)
      else if slot st = None then
        (let (consumer_ctx, st2) = consumers_pop (st\<lparr>slot := Some s\<rparr>)
         in (Wait_until t Published,
             case consumer_ctx of None \<Rightarrow> st2 | Some c \<Rightarrow> set_ready c st2))
      else (Wait_until t Enqueued, producers_push active_ctx st))"
  by (subst push_wait_until_move_loop.simps)
    (simp add: try_push_eq is_closed_def is_empty_def Let_def split: prod.splits)

lemma pop_loop_eq:
  "pop_loop active_ctx val st =
     (case slot st of
        Some p \<Rightarrow>
          (let (producer_ctx, st2) = producers_pop (st\<lparr>slot := None\<rparr>);
               st3 = (case producer_ctx of None \<Rightarrow> st2 | Some c \<Rightarrow> set_ready c st2)
           in ((Returned Success, slot_value (slots st3 p)), set_ready (slot_ctx (slots st3 p)) st3))
      | None \<Rightarrow>
          (if closed st then ((Returned Closed, val), st)
           else ((Suspend Enqueued, val), consumers_push active_ctx st)))"
  by (subst pop_loop.simps)
    (simp add: try_pop_eq is_closed_def is_empty_def Let_def split: prod.splits option.splits)

lemma pop_wait_until_loop_eq:
  "pop_wait_until_loop active_ctx val t st =
     (case slot st of
        Some p \<Rightarrow>
          (let (producer_ctx, st2) = producers_pop (st\<lparr>slot := None\<rparr>);
               st3 = (case producer_ctx of None \<Rightarrow> st2 | Some c \<Rightarrow> set_ready c st2)
           in ((Returned Success, slot_value (slots st3 p)), set_ready (slot_ctx (slots st3 p)) st3))
      | None \<Rightarrow>
          (if closed st then ((Returned Closed, val), st)
           else ((Wait_until t Enqueued, val), consumers_push active_ctx st)))"
  by (subst pop_wait_until_loop.simps)
    (simp add: try_pop_eq is_closed_def is_empty_def Let_def split: prod.splits option.splits)

lemma value_pop_loop_eq:
  "value_pop_loop active_ctx st =
     (case slot st of
        Some p \<Rightarrow>
          (let (producer_ctx, st2) = producers_pop (st\<lparr>slot := None\<rparr>);
               st3 = (case producer_ctx of None \<Rightarrow> st2 | Some c \<Rightarrow> set_ready c st2)
           in (Returned (slot_value (slots st3 p)), set_ready (slot_ctx (slots st3 p)) st3))
      | None \<Rightarrow>
          (if closed st then
             (Thrown \<lparr>code = Operation_not_permitted, what = ''boost fiber: channel is closed''\<rparr>, st)
           else (Suspend Enqueued, consumers_push active_ctx st)))"
  by (subst value_pop_loop.simps)
    (simp add: try_pop_eq is_closed_def is_empty_def Let_def split: prod.splits option.splits)

lemmas loop_eqs = push_copy_loop_eq push_move_loop_eq push_wait_until_copy_loop_eq
  push_wait_until_move_loop_eq pop_loop_eq pop_wait_until_loop_eq value_pop_loop_eq

lemmas queue_defs = producers_pop_def consumers_pop_def producers_push_def consumers_push_def
  set_ready_def

lemma closed_push_loops:
  "closed (snd (push_copy_loop a s st)) = closed st"
  "closed (snd (push_move_loop a s st)) = closed st"
  "closed (snd (push_wait_until_copy_loop a s t st)) = closed st"
  "closed (snd (push_wait_until_move_loop a s t st)) = closed st"
  by (simp_all add: loop_eqs queue_defs split: prod.splits option.splits)

lemma closed_pop_loops:
  "closed (snd (pop_loop a val st)) = closed st"
  "closed (snd (pop_wait_until_loop a val t st)) = closed st"
  "closed (snd (value_pop_loop a st)) = closed st"
  by (simp_all add: loop_eqs queue_defs Let_def split: prod.splits option.splits)

lemma closed_unlink:
  "producers_unlink c st = Some (Inr st') \<Longrightarrow> closed st' = closed st"
  "consumers_unlink c st = Some (Inr st') \<Longrightarrow> closed st' = closed st"
  by (auto simp: producers_unlink_def consumers_unlink_def split: option.splits sum.splits)

lemma notify_producers_frame:
  assumes "notify_producers st = Some st'"
  shows "head (waiting_producers st') = None \<and> closed st' = closed st \<and> slot st' = slot st
         \<and> waiting_consumers st' = waiting_consumers st \<and> next_field st' = next_field st
         \<and> slots st' = slots st"
  using assms
proof (induction st st' rule: notify_producers.raw_induct [rotated 1, consumes 1])
  case (1 f st st')
  then show ?case
    by (auto simp: queue_defs slist_pop_def Let_def split: prod.splits option.splits)
qed

lemma notify_consumers_frame:
  assumes "notify_consumers st = Some st'"
  shows "head (waiting_consumers st') = None \<and> closed st' = closed st \<and> slot st' = slot st
         \<and> waiting_producers st' = waiting_producers st \<and> next_field st' = next_field st
         \<and> slots st' = slots st"
  using assms
proof (induction st st' rule: notify_consumers.raw_induct [rotated 1, consumes 1])
  case (1 f st st')
  then show ?case
    by (auto simp: queue_defs slist_pop_def Let_def split: prod.splits option.splits)
qed

lemma close_frame:
  assumes "close st = Some st'"
  shows "closed st' \<and> head (waiting_producers st') = None \<and> head (waiting_consumers st') = None
         \<and> slot st' = slot st \<and> next_field st' = next_field st \<and> slots st' = slots st"
proof -
  from assms obtain st1 where p: "notify_producers (st\<lparr>closed := True\<rparr>) = Some st1"
    and c: "notify_consumers st1 = Some st'"
    by (auto simp: close_def split: option.splits)
  from notify_producers_frame [OF p] notify_consumers_frame [OF c] show ?thesis by simp
qed

lemma notify_producers_empty:
  "head (waiting_producers st) = None \<Longrightarrow> notify_producers st = Some st"
  by (subst notify_producers.simps) (simp add: producers_pop_def slist_pop_def)

lemma notify_consumers_empty:
  "head (waiting_consumers st) = None \<Longrightarrow> notify_consumers st = Some st"
  by (subst notify_consumers.simps) (simp add: consumers_pop_def slist_pop_def)

lemma close_again: "close st = Some st1 \<Longrightarrow> close st1 = Some st1"
  using close_frame [of st st1]
  by (simp add: close_def notify_producers_empty notify_consumers_empty)

section \<open>Chains and the queue operations\<close>

lemma chain_upd: "u \<notin> set xs \<Longrightarrow> chain (h(u := v)) p xs = chain h p xs"
  by (induction xs arbitrary: p) auto

lemma chain_unique: "chain h p xs \<Longrightarrow> chain h p ys \<Longrightarrow> xs = ys"
proof (induction xs arbitrary: p ys)
  case Nil
  then show ?case by (cases ys) auto
next
  case (Cons x xs)
  then show ?case by (cases ys) auto
qed

lemma chain_head_notin: "chain h (h x) xs \<Longrightarrow> x \<notin> set xs"
proof
  assume c: "chain h (h x) xs" and m: "x \<in> set xs"
  then obtain pre post where xs: "xs = pre @ x # post"
    by (auto simp: in_set_conv_decomp)
  have "\<And>p. chain h p (pre @ x # post) \<Longrightarrow> chain h (h x) post"
    by (induction pre) auto
  with c xs have "chain h (h x) post" by blast
  with c have "xs = post" by (rule chain_unique)
  with xs show False by simp
qed

lemma chain_distinct: "chain h p xs \<Longrightarrow> distinct xs"
  by (induction xs arbitrary: p) (auto dest: chain_head_notin)

lemma notify_producers_chain:
  "chain (next_field st) (head (waiting_producers st)) xs \<Longrightarrow>
   notify_producers st =
     Some (st\<lparr>waiting_producers := (waiting_producers st)\<lparr>head := None\<rparr>, ready := ready st @ xs\<rparr>)"
proof (induction xs arbitrary: st)
  case Nil
  then show ?case
    by (subst notify_producers.simps) (simp add: producers_pop_def slist_pop_def)
next
  case (Cons x xs)
  let ?st1 = "set_ready x (st\<lparr>waiting_producers := (waiting_producers st)\<lparr>head := next_field st x\<rparr>\<rparr>)"
  from Cons.prems have "chain (next_field ?st1) (head (waiting_producers ?st1)) xs"
    by (simp add: set_ready_def)
  from Cons.IH [OF this] Cons.prems show ?case
    by (subst notify_producers.simps) (simp add: producers_pop_def slist_pop_def set_ready_def)
qed

lemma notify_consumers_chain:
  "chain (next_field st) (head (waiting_consumers st)) xs \<Longrightarrow>
   notify_consumers st =
     Some (st\<lparr>waiting_consumers := (waiting_consumers st)\<lparr>head := None\<rparr>, ready := ready st @ xs\<rparr>)"
proof (induction xs arbitrary: st)
  case Nil
  then show ?case
    by (subst notify_consumers.simps) (simp add: consumers_pop_def slist_pop_def)
next
  case (Cons x xs)
  let ?st1 = "set_ready x (st\<lparr>waiting_consumers := (waiting_consumers st)\<lparr>head := next_field st x\<rparr>\<rparr>)"
  from Cons.prems have "chain (next_field ?st1) (head (waiting_consumers ?st1)) xs"
    by (simp add: set_ready_def)
  from Cons.IH [OF this] Cons.prems show ?case
    by (subst notify_consumers.simps) (simp add: consumers_pop_def slist_pop_def set_ready_def)
qed

lemma close_chain:
  assumes "chain (next_field st) (head (waiting_producers st)) xs"
    and "chain (next_field st) (head (waiting_consumers st)) ys"
  shows "close st =
     Some (st\<lparr>closed := True,
              waiting_producers := (waiting_producers st)\<lparr>head := None\<rparr>,
              waiting_consumers := (waiting_consumers st)\<lparr>head := None\<rparr>,
              ready := ready st @ xs @ ys\<rparr>)"
  using assms by (simp add: close_def notify_producers_chain notify_consumers_chain)


lemma chain_ConsI: "p = Some x \<Longrightarrow> h x = q \<Longrightarrow> chain h q xs \<Longrightarrow> chain h p (x # xs)"
  by simp

lemma unlink_walk_found:
  "chain h p xs \<Longrightarrow> deref q h ind = p \<Longrightarrow> c \<in> set xs \<Longrightarrow>
   (\<exists>post. xs = c # post \<and> unlink_walk q h c ind = Some (Inr ind))
   \<or> (\<exists>pre l post. xs = pre @ l # c # post \<and> c \<notin> set (pre @ [l])
        \<and> unlink_walk q h c ind = Some (Inr (Next_field l)))"
proof (induction xs arbitrary: p ind)
  case Nil
  then show ?case by simp
next
  case (Cons x xs)
  from Cons.prems have d: "deref q h ind = Some x" and ch: "chain h (h x) xs" by auto
  show ?case
  proof (cases "x = c")
    case True
    with d have "unlink_walk q h c ind = Some (Inr ind)"
      by (subst unlink_walk.simps) simp
    with True show ?thesis by simp
  next
    case False
    with Cons.prems have "c \<in> set xs" by simp
    from Cons.IH [OF ch _ this, of "Next_field x"]
    consider post where "xs = c # post" "unlink_walk q h c (Next_field x) = Some (Inr (Next_field x))"
      | pre l post where "xs = pre @ l # c # post" "c \<notin> set (pre @ [l])"
          "unlink_walk q h c (Next_field x) = Some (Inr (Next_field l))"
      by (auto simp: deref_def)
    then show ?thesis
    proof cases
      case 1
      from d False 1(2) have "unlink_walk q h c ind = Some (Inr (Next_field x))"
        by (subst unlink_walk.simps) simp
      with 1(1) False have "x # xs = [] @ x # c # post \<and> c \<notin> set ([] @ [x])
          \<and> unlink_walk q h c ind = Some (Inr (Next_field x))"
        by simp
      then show ?thesis by blast
    next
      case 2
      from d False 2(3) have "unlink_walk q h c ind = Some (Inr (Next_field l))"
        by (subst unlink_walk.simps) simp
      with 2(1,2) False have "x # xs = (x # pre) @ l # c # post \<and> c \<notin> set ((x # pre) @ [l])
          \<and> unlink_walk q h c ind = Some (Inr (Next_field l))"
        by simp
      then show ?thesis by blast
    qed
  qed
qed

lemma unlink_walk_missing:
  "chain h p xs \<Longrightarrow> deref q h ind = p \<Longrightarrow> c \<notin> set xs \<Longrightarrow>
   unlink_walk q h c ind = Some (Inl Null_dereference)"
proof (induction xs arbitrary: p ind)
  case Nil
  then show ?case by (subst unlink_walk.simps) simp
next
  case (Cons x xs)
  from Cons.prems have d: "deref q h ind = Some x" and ch: "chain h (h x) xs"
    and ne: "x \<noteq> c" and nm: "c \<notin> set xs" by auto
  from Cons.IH [OF ch _ nm, of "Next_field x"]
  have "unlink_walk q h c (Next_field x) = Some (Inl Null_dereference)"
    by (simp add: deref_def)
  with d ne show ?case by (subst unlink_walk.simps) simp
qed

lemma chain_splice:
  "chain h p (pre @ l # c # post) \<Longrightarrow> distinct (pre @ l # c # post) \<Longrightarrow>
   chain (h(l := h c, c := None)) p (pre @ l # post)"
proof (induction pre arbitrary: p)
  case Nil
  then have f: "p = Some l" "h l = Some c" "chain h (h c) post"
      "l \<noteq> c" "l \<notin> set post" "c \<notin> set post" by auto
  then have "chain (h(l := h c, c := None)) (h c) post"
    by (simp add: chain_upd)
  moreover from f have "(h(l := h c, c := None)) l = h c" by simp
  ultimately have "chain (h(l := h c, c := None)) p (l # post)"
    using f(1) by (intro chain_ConsI)
  then show ?case by (simp only: append_Nil)
next
  case (Cons a pre)
  then have "chain (h(l := h c, c := None)) (h a) (pre @ l # post)"
    by (intro Cons.IH) auto
  moreover from Cons.prems have "p = Some a" "(h(l := h c, c := None)) a = h a" by auto
  ultimately have "chain (h(l := h c, c := None)) p (a # pre @ l # post)"
    by (intro chain_ConsI)
  then show ?case by (simp only: append_Cons)
qed

lemma slist_unlink_member:
  assumes ch: "chain h (head q) xs" and m: "c \<in> set xs"
  shows "\<exists>q' h'. slist_unlink c q h = Some (Inr (q', h'))
           \<and> chain h' (head q') (remove1 c xs) \<and> tail q' = tail q
           \<and> (\<forall>x. x \<notin> set xs \<longrightarrow> h' x = h x)"
proof -
  from ch m have hd: "head q \<noteq> None" by (cases xs) auto
  from ch have dist: "distinct xs" by (rule chain_distinct)
  from unlink_walk_found [OF ch _ m, of q Head_field]
  consider post where "xs = c # post" "unlink_walk q h c Head_field = Some (Inr Head_field)"
    | pre l post where "xs = pre @ l # c # post" "c \<notin> set (pre @ [l])"
        "unlink_walk q h c Head_field = Some (Inr (Next_field l))"
    by (auto simp: deref_def)
  then show ?thesis
  proof cases
    case 1
    with ch dist have "chain (h(c := None)) (h c) post"
      by (simp add: chain_upd)
    moreover from 1 hd have "slist_unlink c q h = Some (Inr (q\<lparr>head := h c\<rparr>, h(c := None)))"
      by (simp add: slist_unlink_def assign_def)
    ultimately show ?thesis using 1(1) by simp
  next
    case 2
    from chain_splice [OF ch [unfolded 2(1)] dist [unfolded 2(1)]]
    have "chain (h(l := h c, c := None)) (head q) (pre @ l # post)" .
    moreover from 2(2) have "remove1 c xs = pre @ l # post"
      by (simp add: 2(1) remove1_append)
    moreover from 2 hd
    have "slist_unlink c q h = Some (Inr (q, h(l := h c, c := None)))"
      by (simp add: slist_unlink_def assign_def)
    ultimately show ?thesis using 2(1) by simp
  qed
qed

lemma slist_unlink_missing:
  assumes ch: "chain h (head q) xs" and m: "c \<notin> set xs"
  shows "\<exists>f. slist_unlink c q h = Some (Inl f)"
  using unlink_walk_missing [OF ch _ m, of q Head_field]
  by (simp add: slist_unlink_def deref_def)

section \<open>No step clears the closed flag\<close>

lemma snd_eqD: "f = (r, st') \<Longrightarrow> snd f = st'"
  by simp

lemma closed_destructor: "destructor st = Some st' \<Longrightarrow> closed st'"
  by (auto simp: destructor_def try_pop_eq set_ready_def dest!: close_frame
      split: option.splits if_splits)

lemma closed_push_calls:
  "closed (snd (push_copy a s v st)) = closed st"
  "closed (snd (push_move a s v st)) = closed st"
  "closed (snd (push_wait_until_copy a s v t st)) = closed st"
  "closed (snd (push_wait_until_move a s v t st)) = closed st"
  "closed (snd (push_wait_for_copy a s v d now st)) = closed st"
  "closed (snd (push_wait_for_move a s v d now st)) = closed st"
  "closed (snd (push_copy_resume w a s st)) = closed st"
  "closed (snd (push_move_resume w a s st)) = closed st"
  by (simp_all add: push_copy_def push_move_def push_wait_until_copy_def push_wait_until_move_def
      push_wait_for_copy_def push_wait_for_move_def push_copy_resume_def push_move_resume_def
      closed_push_loops split: wait_point.splits)

lemma closed_pop_calls:
  "closed (snd (pop a val st)) = closed st"
  "closed (snd (pop_resume a val st)) = closed st"
  "closed (snd (value_pop a st)) = closed st"
  "closed (snd (value_pop_resume a st)) = closed st"
  "closed (snd (pop_wait_until a val t st)) = closed st"
  "closed (snd (pop_wait_for a val d now st)) = closed st"
  by (simp_all add: pop_def pop_resume_def value_pop_def value_pop_resume_def pop_wait_until_def
      pop_wait_for_def closed_pop_loops)

lemma closed_timed_loopsD:
  "push_wait_until_copy_loop a s t st = (r, st') \<Longrightarrow> closed st' = closed st"
  "push_wait_until_move_loop a s t st = (r, st') \<Longrightarrow> closed st' = closed st"
  "pop_wait_until_loop a val t st = (rv, st') \<Longrightarrow> closed st' = closed st"
  using closed_push_loops(3) [of a s t st] closed_push_loops(4) [of a s t st]
    closed_pop_loops(2) [of a val t st]
  by simp_all

lemma closed_timed_resumes:
  "push_wait_until_copy_resume w woken a s t st = Some (Inr (r, st')) \<Longrightarrow> closed st' = closed st"
  "push_wait_until_move_resume w woken a s t st = Some (Inr (r, st')) \<Longrightarrow> closed st' = closed st"
  "pop_wait_until_resume woken a val t st = Some (Inr (rv, st')) \<Longrightarrow> closed st' = closed st"
  by (auto simp: push_wait_until_copy_resume_def push_wait_until_move_resume_def
      pop_wait_until_resume_def compare_exchange_strong_def
      dest: closed_unlink closed_timed_loopsD
      split: wait_point.splits if_splits option.splits sum.splits)

lemma channel_step_closed: "channel_step st st' \<Longrightarrow> closed st \<Longrightarrow> closed st'"
proof (induction rule: channel_step.induct)
  case (step_close st st')
  then show ?case by (auto dest: close_frame)
next
  case (step_destructor st st')
  then show ?case by (auto dest: closed_destructor)
qed (auto dest!: snd_eqD simp: closed_push_calls closed_pop_calls closed_timed_resumes)

lemma channel_steps_closed: "channel_step\<^sup>*\<^sup>* st st' \<Longrightarrow> closed st \<Longrightarrow> closed st'"
  by (induction rule: rtranclp_induct) (auto dest: channel_step_closed)

section \<open>The closed flag\<close>

text \<open>
  C10. The closed flag is monotone: no operation stores \<open>false\<close> into \<open>closed\<close>, so once
  \<open>is_closed()\<close> has returned true it returns true after any sequence of segments of
  \<open>push\<close>, \<open>pop\<close>, \<open>value_pop\<close>, the timed variants, \<open>close\<close> and the destructor.
\<close>

theorem closed_flag_monotone:
  "channel_step\<^sup>*\<^sup>* st st' \<Longrightarrow> is_closed st \<Longrightarrow> is_closed st'"
  by (simp add: is_closed_def channel_steps_closed)

theorem closed_flag_monotone_witness:
  "is_closed fresh_closed
   \<and> is_closed (snd (pop 2 0 (snd (push_copy 1 10 7 fresh_closed))))"
proof -
  let ?st1 = "snd (push_copy 1 10 7 fresh_closed)"
  let ?st2 = "snd (pop 2 0 ?st1)"
  have "channel_step fresh_closed ?st1"
    by (rule step_push_copy [of 1 10 7 fresh_closed "fst (push_copy 1 10 7 fresh_closed)"]) simp
  moreover have "channel_step ?st1 ?st2"
    by (rule step_pop [of 2 0 ?st1 "fst (pop 2 0 ?st1)"]) simp
  ultimately have steps: "channel_step\<^sup>*\<^sup>* fresh_closed ?st2" by simp
  have c: "is_closed fresh_closed"
    by (simp add: is_closed_def fresh_closed_def)
  from closed_flag_monotone [OF steps c] c show ?thesis by simp
qed

section \<open>Operations on a closed channel\<close>

text \<open>
  C4. Once \<open>close()\<close> has returned (state \<open>st1\<close>), in every state \<open>st\<close> that the operations
  of the channel reach from there: \<open>push\<close>, \<open>push_wait_until\<close> and \<open>push_wait_for\<close> (both
  overloads) return \<open>closed\<close>, and the only thing they have written is the caller's own
  slot in its frame: the slot pointer, both wait-queues, the \<open>next\<close> fields and the ready
  log are as before, so no slot is published and the caller is not enqueued. \<open>pop\<close>,
  \<open>pop_wait_until\<close> and \<open>pop_wait_for\<close> return \<open>closed\<close> whenever no slot is published, and
  leave the state and the out-parameter as they were.
\<close>

theorem closed_channel_rejects:
  assumes "close st0 = Some st1" and "channel_step\<^sup>*\<^sup>* st1 st"
  shows "is_closed st
    \<and> push_copy a s v st
        = (Returned Closed, st\<lparr>slots := (slots st)(s := \<lparr>slot_value = v, slot_ctx = a\<rparr>)\<rparr>)
    \<and> push_move a s v st
        = (Returned Closed, st\<lparr>slots := (slots st)(s := \<lparr>slot_value = v, slot_ctx = a\<rparr>)\<rparr>)
    \<and> push_wait_until_copy a s v t st
        = (Returned Closed, st\<lparr>slots := (slots st)(s := \<lparr>slot_value = v, slot_ctx = a\<rparr>)\<rparr>)
    \<and> push_wait_until_move a s v t st
        = (Returned Closed, st\<lparr>slots := (slots st)(s := \<lparr>slot_value = v, slot_ctx = a\<rparr>)\<rparr>)
    \<and> push_wait_for_copy a s v d now st
        = (Returned Closed, st\<lparr>slots := (slots st)(s := \<lparr>slot_value = v, slot_ctx = a\<rparr>)\<rparr>)
    \<and> push_wait_for_move a s v d now st
        = (Returned Closed, st\<lparr>slots := (slots st)(s := \<lparr>slot_value = v, slot_ctx = a\<rparr>)\<rparr>)
    \<and> (is_empty st \<longrightarrow>
          pop a val st = ((Returned Closed, val), st)
        \<and> pop_wait_until a val t st = ((Returned Closed, val), st)
        \<and> pop_wait_for a val d now st = ((Returned Closed, val), st))"
proof -
  from assms(1) have "closed st1" by (auto dest: close_frame)
  with assms(2) have c: "closed st" by (rule channel_steps_closed)
  then show ?thesis
    by (simp add: is_closed_def is_empty_def push_copy_def push_move_def push_wait_until_copy_def
        push_wait_until_move_def push_wait_for_copy_def push_wait_for_move_def pop_def
        pop_wait_until_def pop_wait_for_def loop_eqs)
qed

text \<open>Closing the fresh channel, which has no waiters, only sets the flag.\<close>

lemma close_fresh: "close fresh = Some fresh_closed"
  using close_chain [of fresh "[]" "[]"]
  by (simp add: fresh_def fresh_closed_def channel_init_def slist_init_def)

theorem closed_channel_rejects_witness:
  "close fresh = Some fresh_closed
   \<and> fst (push_copy 1 10 7 fresh_closed) = Returned Closed
   \<and> (let st = snd (push_copy 1 10 7 fresh_closed)
      in is_empty st
         \<and> fst (push_wait_for_move 1 10 7 5 100 st) = Returned Closed
         \<and> slot (snd (push_wait_for_move 1 10 7 5 100 st)) = None
         \<and> pop 2 0 st = ((Returned Closed, 0), st)
         \<and> pop_wait_for 2 0 5 100 st = ((Returned Closed, 0), st))"
proof -
  let ?st = "snd (push_copy 1 10 7 fresh_closed)"
  have "channel_step fresh_closed ?st"
    by (rule step_push_copy [of 1 10 7 fresh_closed "fst (push_copy 1 10 7 fresh_closed)"]) simp
  then have steps: "channel_step\<^sup>*\<^sup>* fresh_closed ?st" by simp
  have e: "is_empty ?st \<and> slot ?st = None"
    by (simp add: is_empty_def push_copy_def push_copy_loop_eq fresh_closed_def fresh_def
        channel_init_def)
  from closed_channel_rejects [OF close_fresh rtranclp.rtrancl_refl,
      where a = 1 and s = 10 and v = 7]
    closed_channel_rejects [OF close_fresh steps,
      where a = 1 and s = 10 and v = 7 and d = 5 and now = 100]
    closed_channel_rejects [OF close_fresh steps,
      where a = 2 and d = 5 and now = 100 and val = 0]
    e close_fresh
  show ?thesis by (simp add: Let_def)
qed

section \<open>value\_pop\<close>

text \<open>
  C5. \<open>value_pop\<close> throws if and only if, when it examines the channel, the channel is
  closed and no slot is published, and the error it throws carries
  \<open>operation_not_permitted\<close>. It returns a value exactly when a slot is published, and the
  value is the one in that slot. In the remaining case (open and empty) the caller
  suspends; the segment after the resumption examines the channel in the same way.
\<close>

theorem value_pop_throws_iff_closed_and_empty:
  "((\<exists>e. fst (value_pop a st) = Thrown e) \<longleftrightarrow> is_closed st \<and> is_empty st)
   \<and> (\<forall>e. fst (value_pop a st) = Thrown e \<longrightarrow> code e = Operation_not_permitted)
   \<and> (\<forall>v. fst (value_pop a st) = Returned v
          \<longleftrightarrow> (\<exists>p. slot st = Some p \<and> v = slot_value (slots st p)))
   \<and> (fst (value_pop a st) = Suspend Enqueued \<longleftrightarrow> \<not> is_closed st \<and> is_empty st)
   \<and> value_pop_resume a st = value_pop a st"
  by (auto simp: value_pop_def value_pop_resume_def value_pop_loop_eq is_closed_def is_empty_def
      queue_defs Let_def split: option.splits prod.splits)

theorem value_pop_throws_iff_closed_and_empty_witness:
  "is_closed fresh_closed \<and> is_empty fresh_closed
   \<and> (\<exists>e. fst (value_pop 2 fresh_closed) = Thrown e)
   \<and> \<not> is_closed fresh \<and> (\<forall>e. fst (value_pop 2 fresh) \<noteq> Thrown e)"
proof -
  have "is_closed fresh_closed \<and> is_empty fresh_closed \<and> \<not> is_closed fresh"
    by (simp add: is_closed_def is_empty_def fresh_closed_def fresh_def channel_init_def)
  with value_pop_throws_iff_closed_and_empty [of 2 fresh_closed]
    value_pop_throws_iff_closed_and_empty [of 2 fresh]
  show ?thesis by simp
qed

section \<open>close is idempotent\<close>

text \<open>
  C7. When a call of \<open>close()\<close> has returned the state \<open>st1\<close>, a second call returns and
  leaves exactly \<open>st1\<close>: the closed flag, the slot pointer, both wait-queues and the ready
  log are unchanged, so the second call schedules no waiter. In \<open>st1\<close> the channel is
  closed and both queues are empty. (Lemma \<open>close_chain\<close> shows that the first call
  returns whenever both queues hold a list of contexts.)
\<close>

theorem close_idempotent:
  "close st = Some st1 \<Longrightarrow>
   close st1 = Some st1 \<and> is_closed st1 \<and> slist_empty (waiting_producers st1)
   \<and> slist_empty (waiting_consumers st1)"
  using close_frame [of st st1] close_again [of st st1]
  by (simp add: is_closed_def slist_empty_def)


theorem close_idempotent_witness:
  "\<exists>st1. close (snd (pop 3 0 fresh)) = Some st1 \<and> ready st1 = [3] \<and> close st1 = Some st1"
proof -
  let ?st = "snd (pop 3 0 fresh)"
  have st: "?st = fresh\<lparr>waiting_consumers := \<lparr>head = Some 3, tail = Head_field\<rparr>\<rparr>"
    by (simp add: pop_def pop_loop_eq fresh_def channel_init_def consumers_push_def
        slist_push_def slist_init_def deref_def assign_def)
  have "chain (next_field ?st) (head (waiting_producers ?st)) []"
    and "chain (next_field ?st) (head (waiting_consumers ?st)) [3]"
    unfolding st by (simp_all add: fresh_def channel_init_def slist_init_def)
  note c = close_chain [OF this]
  have r: "ready ?st = []"
    unfolding st by (simp add: fresh_def channel_init_def)
  from close_idempotent [OF c] c r show ?thesis by simp
qed

section \<open>The two overloads of push\<close>

text \<open>
  C9. The copy-accepting and the move-accepting overloads of \<open>push\<close>, and of
  \<open>push_wait_until\<close> (and \<open>push_wait_for\<close>, which delegates to it), are equal as functions
  of the channel state, in the call and in the segment after a suspension: same status,
  same suspension, same state. The slot they publish holds the value that was passed, and
  a consumer that pops after either overload has published receives that value.
\<close>

theorem push_overloads_agree:
  "push_copy a s v st = push_move a s v st
   \<and> push_copy_resume w a s st = push_move_resume w a s st
   \<and> push_wait_until_copy a s v t st = push_wait_until_move a s v t st
   \<and> push_wait_until_copy_resume w woken a s t st = push_wait_until_move_resume w woken a s t st
   \<and> push_wait_for_copy a s v d now st = push_wait_for_move a s v d now st
   \<and> slot_value (slots (snd (push_copy a s v st)) s) = v
   \<and> slot_value (slots (snd (push_wait_until_copy a s v t st)) s) = v
   \<and> (fst (push_copy a s v st) = Suspend Published \<longrightarrow>
        fst (pop c val (snd (push_copy a s v st))) = (Returned Success, v)
      \<and> fst (pop c val (snd (push_move a s v st))) = (Returned Success, v))
   \<and> (fst (push_wait_until_copy a s v t st) = Wait_until t Published \<longrightarrow>
        fst (pop c val (snd (push_wait_until_copy a s v t st))) = (Returned Success, v)
      \<and> fst (pop c val (snd (push_wait_until_move a s v t st))) = (Returned Success, v))"
  by (simp add: push_copy_def push_move_def push_copy_resume_def push_move_resume_def
      push_wait_until_copy_def push_wait_until_move_def push_wait_until_copy_resume_def
      push_wait_until_move_resume_def push_wait_for_copy_def push_wait_for_move_def
      pop_def loop_eqs queue_defs Let_def
      split: prod.splits option.splits wait_point.splits)

theorem push_overloads_agree_witness:
  "fst (push_copy 1 10 42 fresh) = Suspend Published
   \<and> fst (push_move 1 10 42 fresh) = Suspend Published
   \<and> fst (pop 2 0 (snd (push_copy 1 10 42 fresh))) = (Returned Success, 42)
   \<and> fst (pop 2 0 (snd (push_move 1 10 42 fresh))) = (Returned Success, 42)
   \<and> fst (push_wait_until_copy 1 10 42 5 fresh) = Wait_until 5 Published
   \<and> fst (pop 2 0 (snd (push_wait_until_move 1 10 42 5 fresh))) = (Returned Success, 42)"
proof -
  have p: "fst (push_copy 1 10 42 fresh) = Suspend Published"
    and q: "fst (push_wait_until_copy 1 10 42 5 fresh) = Wait_until 5 Published"
    by (simp_all add: push_copy_def push_wait_until_copy_def loop_eqs fresh_def channel_init_def
        queue_defs slist_pop_def slist_init_def)
  from push_overloads_agree [where a = 1 and s = 10 and v = 42 and st = fresh and t = 5
      and c = 2 and val = 0] p q
  show ?thesis by simp
qed


section \<open>A deadline that fires on a wait-queue\<close>

lemma chain_agree: "(\<And>x. x \<in> set xs \<Longrightarrow> h' x = h x) \<Longrightarrow> chain h' p xs = chain h p xs"
  by (induction xs arbitrary: p) auto

lemma consumers_unlink_member:
  assumes cs: "chain (next_field st) (head (waiting_consumers st)) cs" and m: "c \<in> set cs"
    and ps: "chain (next_field st) (head (waiting_producers st)) ps"
    and dj: "set cs \<inter> set ps = {}"
  shows "\<exists>st'. consumers_unlink c st = Some (Inr st')
           \<and> chain (next_field st') (head (waiting_consumers st')) (remove1 c cs)
           \<and> chain (next_field st') (head (waiting_producers st')) ps"
proof -
  from slist_unlink_member [OF cs m] obtain q' h'
    where u: "slist_unlink c (waiting_consumers st) (next_field st) = Some (Inr (q', h'))"
      and r: "chain h' (head q') (remove1 c cs)"
      and fr: "\<forall>x. x \<notin> set cs \<longrightarrow> h' x = next_field st x"
    by blast
  from dj fr have "\<And>x. x \<in> set ps \<Longrightarrow> h' x = next_field st x" by blast
  then have "chain h' (head (waiting_producers st)) ps = chain (next_field st) (head (waiting_producers st)) ps"
    by (rule chain_agree)
  with ps have "chain h' (head (waiting_producers st)) ps" by simp
  with u r show ?thesis by (simp add: consumers_unlink_def)
qed

lemma producers_unlink_member:
  assumes ps: "chain (next_field st) (head (waiting_producers st)) ps" and m: "c \<in> set ps"
    and cs: "chain (next_field st) (head (waiting_consumers st)) cs"
    and dj: "set cs \<inter> set ps = {}"
  shows "\<exists>st'. producers_unlink c st = Some (Inr st')
           \<and> chain (next_field st') (head (waiting_producers st')) (remove1 c ps)
           \<and> chain (next_field st') (head (waiting_consumers st')) cs"
proof -
  from slist_unlink_member [OF ps m] obtain q' h'
    where u: "slist_unlink c (waiting_producers st) (next_field st) = Some (Inr (q', h'))"
      and r: "chain h' (head q') (remove1 c ps)"
      and fr: "\<forall>x. x \<notin> set ps \<longrightarrow> h' x = next_field st x"
    by blast
  from dj fr have "\<And>x. x \<in> set cs \<Longrightarrow> h' x = next_field st x" by blast
  then have "chain h' (head (waiting_consumers st)) cs = chain (next_field st) (head (waiting_consumers st)) cs"
    by (rule chain_agree)
  with cs have "chain h' (head (waiting_consumers st)) cs" by simp
  with u r show ?thesis by (simp add: producers_unlink_def)
qed

lemma consumers_unlink_missing:
  "chain (next_field st) (head (waiting_consumers st)) cs \<Longrightarrow> c \<notin> set cs \<Longrightarrow>
   \<exists>f. consumers_unlink c st = Some (Inl f)"
  by (auto simp: consumers_unlink_def dest: slist_unlink_missing)

lemma pop_wait_until_loop_no_timeout:
  "fst (fst (pop_wait_until_loop c val t st)) \<noteq> Returned Timeout"
  by (simp add: pop_wait_until_loop_eq Let_def split: option.splits prod.splits)

text \<open>
  On queues that hold lists: let the consumers queue hold the contexts \<open>cs\<close> and the
  producers queue the contexts \<open>ps\<close>, no context being in both. When the deadline of a
  \<open>pop_wait_until\<close> of context \<open>c\<close> fires while \<open>c\<close> is in the consumers queue, the call
  returns \<open>timeout\<close>, the out-parameter is unchanged and \<open>c\<close> is unlinked; a return of
  \<open>timeout\<close> never changes the out-parameter and comes only from the segment after a
  deadline. Likewise for \<open>push_wait_until\<close> and the producers queue. The queues of the
  channel need not hold lists, as the theorem at the end of this section shows.
\<close>

lemma timeout_unlinks_on_list_queues:
  assumes cs: "chain (next_field st) (head (waiting_consumers st)) cs"
    and ps: "chain (next_field st) (head (waiting_producers st)) ps"
    and dj: "set cs \<inter> set ps = {}"
  shows "(c \<in> set cs \<longrightarrow>
           (\<exists>st'. pop_wait_until_resume False c val t st = Some (Inr ((Returned Timeout, val), st'))
              \<and> chain (next_field st') (head (waiting_consumers st')) (remove1 c cs)
              \<and> c \<notin> set (remove1 c cs)
              \<and> chain (next_field st') (head (waiting_producers st')) ps
              \<and> c \<notin> set ps))
    \<and> (\<forall>woken val' st'.
          pop_wait_until_resume woken c val t st = Some (Inr ((Returned Timeout, val'), st'))
          \<longrightarrow> \<not> woken \<and> val' = val \<and> c \<in> set cs)
    \<and> fst (fst (pop_wait_until c val t st)) \<noteq> Returned Timeout
    \<and> fst (fst (pop_wait_for c val d now st)) \<noteq> Returned Timeout
    \<and> (c \<in> set ps \<longrightarrow>
           (\<exists>st'. push_wait_until_copy_resume Enqueued False c s t st
                      = Some (Inr (Returned Timeout, st'))
              \<and> push_wait_until_move_resume Enqueued False c s t st
                      = Some (Inr (Returned Timeout, st'))
              \<and> chain (next_field st') (head (waiting_producers st')) (remove1 c ps)
              \<and> c \<notin> set (remove1 c ps)
              \<and> chain (next_field st') (head (waiting_consumers st')) cs
              \<and> c \<notin> set cs))"
proof (intro conjI impI allI)
  assume m: "c \<in> set cs"
  from cs have "distinct cs" by (rule chain_distinct)
  then have n: "c \<notin> set (remove1 c cs)" by simp
  from m dj have "c \<notin> set ps" by blast
  with consumers_unlink_member [OF cs m ps dj] n
  show "\<exists>st'. pop_wait_until_resume False c val t st = Some (Inr ((Returned Timeout, val), st'))
              \<and> chain (next_field st') (head (waiting_consumers st')) (remove1 c cs)
              \<and> c \<notin> set (remove1 c cs)
              \<and> chain (next_field st') (head (waiting_producers st')) ps
              \<and> c \<notin> set ps"
    by (auto simp: pop_wait_until_resume_def)
next
  fix woken val' st'
  assume r: "pop_wait_until_resume woken c val t st = Some (Inr ((Returned Timeout, val'), st'))"
  show "\<not> woken"
  proof
    assume woken
    with r have "pop_wait_until_loop c val t st = ((Returned Timeout, val'), st')"
      by (simp add: pop_wait_until_resume_def)
    with pop_wait_until_loop_no_timeout [of c val t st] show False by simp
  qed
  with r show "val' = val"
    by (auto simp: pop_wait_until_resume_def split: option.splits sum.splits)
  show "c \<in> set cs"
  proof (rule ccontr)
    assume "c \<notin> set cs"
    from consumers_unlink_missing [OF cs this] r \<open>\<not> woken\<close> show False
      by (auto simp: pop_wait_until_resume_def)
  qed
next
  show "fst (fst (pop_wait_until c val t st)) \<noteq> Returned Timeout"
    by (simp add: pop_wait_until_def pop_wait_until_loop_no_timeout)
  show "fst (fst (pop_wait_for c val d now st)) \<noteq> Returned Timeout"
    by (simp add: pop_wait_for_def pop_wait_until_def pop_wait_until_loop_no_timeout)
next
  assume m: "c \<in> set ps"
  from ps have "distinct ps" by (rule chain_distinct)
  then have n: "c \<notin> set (remove1 c ps)" by simp
  from m dj have "c \<notin> set cs" by blast
  with producers_unlink_member [OF ps m cs dj] n
  show "\<exists>st'. push_wait_until_copy_resume Enqueued False c s t st
                      = Some (Inr (Returned Timeout, st'))
              \<and> push_wait_until_move_resume Enqueued False c s t st
                      = Some (Inr (Returned Timeout, st'))
              \<and> chain (next_field st') (head (waiting_producers st')) (remove1 c ps)
              \<and> c \<notin> set (remove1 c ps)
              \<and> chain (next_field st') (head (waiting_consumers st')) cs
              \<and> c \<notin> set cs"
    by (auto simp: push_wait_until_copy_resume_def push_wait_until_move_resume_def)
qed


lemma two_sided_queues:
  "chain (next_field two_sided) (head (waiting_consumers two_sided)) [4]"
  "chain (next_field two_sided) (head (waiting_producers two_sided)) [2]"
  by (simp_all add: two_sided_def pop_wait_until_def push_wait_until_copy_def loop_eqs queue_defs
      slist_push_def slist_pop_def deref_def assign_def fresh_def channel_init_def slist_init_def
      Let_def)

lemma timeout_unlinks_on_list_queues_example:
  "chain (next_field two_sided) (head (waiting_consumers two_sided)) [4]
   \<and> chain (next_field two_sided) (head (waiting_producers two_sided)) [2]
   \<and> (\<exists>st'. pop_wait_until_resume False 4 0 50 two_sided = Some (Inr ((Returned Timeout, 0), st'))
          \<and> slist_empty (waiting_consumers st')
          \<and> chain (next_field st') (head (waiting_producers st')) [2])
   \<and> (\<exists>st'. push_wait_until_copy_resume Enqueued False 2 11 50 two_sided
               = Some (Inr (Returned Timeout, st'))
          \<and> slist_empty (waiting_producers st')
          \<and> chain (next_field st') (head (waiting_consumers st')) [4])"
proof -
  have dj: "set [4::nat] \<inter> set [2] = {}" by simp
  have m4: "(4::nat) \<in> set [4]" and m2: "(2::nat) \<in> set [2]" by simp_all
  note consumer = timeout_unlinks_on_list_queues [OF two_sided_queues dj,
      where c = 4 and val = 0 and t = 50, THEN conjunct1, rule_format, OF m4]
  note producer = timeout_unlinks_on_list_queues [OF two_sided_queues dj,
      where c = 2 and s = 11 and t = 50, THEN conjunct2, THEN conjunct2, THEN conjunct2,
      THEN conjunct2, rule_format, OF m2]
  from consumer obtain st1
    where "pop_wait_until_resume False 4 0 50 two_sided = Some (Inr ((Returned Timeout, 0), st1))"
      and "slist_empty (waiting_consumers st1)"
      and "chain (next_field st1) (head (waiting_producers st1)) [2]"
    by (auto simp: slist_empty_def)
  moreover from producer obtain st2
    where "push_wait_until_copy_resume Enqueued False 2 11 50 two_sided
             = Some (Inr (Returned Timeout, st2))"
      and "slist_empty (waiting_producers st2)"
      and "chain (next_field st2) (head (waiting_consumers st2)) [4]"
    by (auto simp: slist_empty_def)
  ultimately show ?thesis using two_sided_queues by blast
qed


section \<open>notify\_all on any queue\<close>

text \<open>
  On a condition variable whose wait-queue holds the contexts \<open>xs\<close>, \<open>notify_all\<close>
  returns and its events are: lock, \<open>set_ready\<close> for each waiter in queue order, unlock.
  For every non-empty queue all calls of \<open>set_ready\<close> are made under the spinlock.
\<close>

lemma notify_all_loop_chain:
  "chain (cv_next_field cv) (head (wait_queue cv)) xs \<Longrightarrow>
   notify_all_loop cv =
     Some (cv\<lparr>wait_queue := (wait_queue cv)\<lparr>head := None\<rparr>,
              events := events cv @ map Set_ready xs\<rparr>)"
proof (induction xs arbitrary: cv)
  case Nil
  then show ?case
    by (subst notify_all_loop.simps) (simp add: wait_queue_pop_def slist_pop_def)
next
  case (Cons x xs)
  let ?cv1 = "emit (Set_ready x) (cv\<lparr>wait_queue := (wait_queue cv)\<lparr>head := cv_next_field cv x\<rparr>\<rparr>)"
  from Cons.prems have "chain (cv_next_field ?cv1) (head (wait_queue ?cv1)) xs"
    by (simp add: emit_def)
  from Cons.IH [OF this] Cons.prems show ?case
    by (subst notify_all_loop.simps) (simp add: wait_queue_pop_def slist_pop_def emit_def)
qed

lemma notify_all_chain:
  "chain (cv_next_field cv) (head (wait_queue cv)) xs \<Longrightarrow>
   map_option events (notify_all cv) = Some (events cv @ Lock # map Set_ready xs @ [Unlock])"
  by (simp add: notify_all_def notify_all_loop_chain emit_def)

end
